theory Spec2Isabelle
  imports Main "HOL-Library.Sublist"
begin

section \<open>Python primitives used by the scripts\<close>

text \<open>
  Python strings are modelled as \<open>string\<close>; every \<open>char\<close> stands for one code point
  below 256. Exceptions are values of \<open>py_error\<close>; a function that can raise returns
  \<open>py_error + 'a\<close> with \<open>Inl\<close> for the raised exception.
\<close>

datatype py_error = IndexError | ZeroDivisionError | ValueError | AttributeError

text \<open>\<^verbatim>\<open>str.isspace\<close> on one character: TAB, LF, VT, FF, CR, FS, GS, RS, US, space,
  NEL and the no-break space.\<close>

definition is_space :: "char \<Rightarrow> bool" where
  "is_space c =
     (let n = (of_char c :: nat)
      in (9 \<le> n \<and> n \<le> 13) \<or> (28 \<le> n \<and> n \<le> 32) \<or> n = 133 \<or> n = 160)"

text \<open>\<^verbatim>\<open>s.strip()\<close>: whitespace removed at both ends.\<close>

definition strip :: "string \<Rightarrow> string" where
  "strip s = rev (dropWhile is_space (rev (dropWhile is_space s)))"

text \<open>\<^verbatim>\<open>s.rstrip(c)\<close> for a one-character argument.\<close>

definition rstrip_char :: "char \<Rightarrow> string \<Rightarrow> string" where
  "rstrip_char c s = rev (dropWhile (\<lambda>x. x = c) (rev s))"

text \<open>\<^verbatim>\<open>s.split(c)\<close> for a one-character separator: always at least one piece.\<close>

fun split_char :: "char \<Rightarrow> string \<Rightarrow> string list" where
  "split_char c [] = [[]]"
| "split_char c (x # xs) =
     (if x = c then [] # split_char c xs
      else (case split_char c xs of
              [] \<Rightarrow> [[x]]
            | p # ps \<Rightarrow> (x # p) # ps))"

text \<open>\<^verbatim>\<open>s.startswith(t)\<close> and \<^verbatim>\<open>s.endswith(t)\<close>.\<close>

fun startswith :: "string \<Rightarrow> string \<Rightarrow> bool" where
  "startswith s [] = True"
| "startswith [] (t # ts) = False"
| "startswith (x # xs) (t # ts) = (x = t \<and> startswith xs ts)"

definition endswith :: "string \<Rightarrow> string \<Rightarrow> bool" where
  "endswith s t = startswith (rev s) (rev t)"

text \<open>\<^verbatim>\<open>xs[i]\<close>: a negative index counts from the end, an index out of range raises.\<close>

definition py_index :: "'a list \<Rightarrow> int \<Rightarrow> py_error + 'a" where
  "py_index xs i =
     (if 0 \<le> i \<and> i < int (length xs) then Inr (xs ! nat i)
      else if i < 0 \<and> - int (length xs) \<le> i then Inr (xs ! nat (int (length xs) + i))
      else Inl IndexError)"

section \<open>Image extraction (extract\_images\_now.py)\<close>

subsection \<open>The regular expression\<close>

text \<open>
  \<^verbatim>\<open>
  pattern = r'cp\.imagesJSONCache\d+\s*=\s*(\{.*?\});'
  match = re.search(pattern, content, re.DOTALL)
  \<close>
  \<open>re_search\<close> tries the pattern at each position from the left and returns group 1
  of the first match. At one position the pattern is deterministic up to the opening
  brace: a digit is neither whitespace nor \<open>=\<close>, and whitespace is neither \<open>=\<close> nor
  \<open>{\<close>, so the greedy \<^verbatim>\<open>\d+\<close> and \<^verbatim>\<open>\s*\<close> never give a character back
  (\<open>match_open\<close>). After the brace the lazy \<^verbatim>\<open>.*?\<close> (any character, line feeds too)
  stops at the first \<open>};\<close> (\<open>match_close\<close>).
\<close>

definition is_digit :: "char \<Rightarrow> bool" where
  "is_digit c = (let n = (of_char c :: nat) in 48 \<le> n \<and> n \<le> 57)"

fun match_literal :: "string \<Rightarrow> string \<Rightarrow> string option" where
  "match_literal [] s = Some s"
| "match_literal (l # ls) [] = None"
| "match_literal (l # ls) (c # cs) = (if c = l then match_literal ls cs else None)"

fun match_close :: "string \<Rightarrow> string option" where
  "match_close [] = None"
| "match_close (c # cs) =
     (if c = CHR ''}'' \<and> startswith cs '';'' then Some []
      else map_option ((#) c) (match_close cs))"

text \<open>\<^verbatim>\<open>cp\.imagesJSONCache\d+\s*=\s*\{\<close> at the start of \<open>s\<close>: the text after the brace.\<close>

definition match_open :: "string \<Rightarrow> string option" where
  "match_open s =
     (case match_literal ''cp.imagesJSONCache'' s of
        None \<Rightarrow> None
      | Some r1 \<Rightarrow>
          if takeWhile is_digit r1 = [] then None
          else (case dropWhile is_space (dropWhile is_digit r1) of
                  [] \<Rightarrow> None
                | c # r2 \<Rightarrow>
                    if c = CHR ''='' then
                      (case dropWhile is_space r2 of
                         [] \<Rightarrow> None
                       | d # r3 \<Rightarrow> if d = CHR ''{'' then Some r3 else None)
                    else None))"

definition match_here :: "string \<Rightarrow> string option" where
  "match_here s =
     (case match_open s of
        None \<Rightarrow> None
      | Some r3 \<Rightarrow> map_option (\<lambda>body. CHR ''{'' # body @ ''}'') (match_close r3))"

fun re_search :: "string \<Rightarrow> string option" where
  "re_search [] = None"
| "re_search (c # cs) =
     (case match_here (c # cs) of
        Some json_str \<Rightarrow> Some json_str
      | None \<Rightarrow> re_search cs)"


subsection \<open>The entries\<close>

text \<open>
  \<^verbatim>\<open>json.loads\<close> and \<^verbatim>\<open>base64.b64decode\<close> are library functions; the model takes them
  as parameters. \<open>json_loads s\<close> is \<open>None\<close> when the parser raises
  \<^verbatim>\<open>JSONDecodeError\<close> and otherwise the items of the parsed object in dictionary
  order; a value is a string or some other JSON value. \<open>b64decode s\<close> is the decoded
  bytes or the exception raised. The output directory is a map from file name to
  content, and writing a file always succeeds.
\<close>

datatype json_value = JString string | JNonString

type_synonym bytes = "char list"

type_synonym directory = "string \<rightharpoonup> bytes"

record extract_state =
  files :: directory
  extracted_count :: nat

text \<open>
  \<^verbatim>\<open>
  clean_filename = filename.replace('/', '_')
  if not clean_filename.endswith('.png'):
      clean_filename += '.png'
  \<close>
\<close>

definition replace_char :: "char \<Rightarrow> char \<Rightarrow> string \<Rightarrow> string" where
  "replace_char old new s = map (\<lambda>c. if c = old then new else c) s"

definition clean_filename :: "string \<Rightarrow> string" where
  "clean_filename filename =
     (let cleaned = replace_char CHR ''/'' CHR ''_'' filename
      in if \<not> endswith cleaned ''.png'' then cleaned @ ''.png'' else cleaned)"

text \<open>
  The body of the \<^verbatim>\<open>try\<close> of one entry. \<^verbatim>\<open>base64_data.strip()\<close> raises
  \<^verbatim>\<open>AttributeError\<close> on a value that is not a string.
\<close>

definition entry_body ::
  "(string \<Rightarrow> py_error + bytes) \<Rightarrow> extract_state \<Rightarrow> string \<times> json_value
     \<Rightarrow> py_error + extract_state"
where
  "entry_body b64decode st entry =
     (case entry of (filename, base64_data) \<Rightarrow>
        if strip filename = [] \<or> filename = ''___'' then Inr st
        else
          let output_name = clean_filename filename
          in case base64_data of
               JNonString \<Rightarrow> Inl AttributeError
             | JString data \<Rightarrow>
                 if strip data \<noteq> [] then
                   (case b64decode data of
                      Inl e \<Rightarrow> Inl e
                    | Inr image_data \<Rightarrow>
                        if 100 < length image_data
                        then Inr (st\<lparr>files := (files st)(output_name \<mapsto> image_data),
                                      extracted_count := extracted_count st + 1\<rparr>)
                        else Inr st)
                 else Inr st)"

text \<open>\<^verbatim>\<open>except Exception as e: print(...)\<close>: the loop goes on with the state unchanged.\<close>

definition process_entry ::
  "(string \<Rightarrow> py_error + bytes) \<Rightarrow> extract_state \<Rightarrow> string \<times> json_value \<Rightarrow> extract_state"
where
  "process_entry b64decode st entry =
     (case entry_body b64decode st entry of
        Inl e \<Rightarrow> st
      | Inr st' \<Rightarrow> st')"

fun extract_entries ::
  "(string \<Rightarrow> py_error + bytes) \<Rightarrow> extract_state \<Rightarrow> (string \<times> json_value) list
     \<Rightarrow> extract_state"
where
  "extract_entries b64decode st [] = st"
| "extract_entries b64decode st (entry # rest) =
     extract_entries b64decode (process_entry b64decode st entry) rest"

text \<open>
  The function returns \<^verbatim>\<open>extracted_count\<close>; the model returns it with the contents of
  the output directory. The JSON file is \<open>None\<close> when it does not exist.
\<close>

definition extract_images_from_json ::
  "(string \<Rightarrow> (string \<times> json_value) list option) \<Rightarrow> (string \<Rightarrow> py_error + bytes)
     \<Rightarrow> string option \<Rightarrow> directory \<Rightarrow> nat \<times> directory"
where
  "extract_images_from_json json_loads b64decode json_file output_dir =
     (case json_file of
        None \<Rightarrow> (0, output_dir)
      | Some content \<Rightarrow>
          (case re_search content of
             None \<Rightarrow> (0, output_dir)
           | Some json_str \<Rightarrow>
               (case json_loads json_str of
                  None \<Rightarrow> (0, output_dir)
                | Some images_data \<Rightarrow>
                    let st = extract_entries b64decode
                               \<lparr>files = output_dir, extracted_count = 0\<rparr> images_data
                    in (extracted_count st, files st))))"

text \<open>
  An entry is extracted when no \<^verbatim>\<open>continue\<close>, no exception and no size check stops
  it; \<open>entry_image\<close> is then the file name and content written for it.
\<close>

definition entry_image ::
  "(string \<Rightarrow> py_error + bytes) \<Rightarrow> string \<times> json_value \<Rightarrow> (string \<times> bytes) option"
where
  "entry_image b64decode entry =
     (case entry of
        (filename, JString data) \<Rightarrow>
          (case b64decode data of
             Inr image_data \<Rightarrow>
               if strip filename \<noteq> [] \<and> filename \<noteq> ''___'' \<and> strip data \<noteq> [] \<and>
                  100 < length image_data
               then Some (clean_filename filename, image_data)
               else None
           | Inl e \<Rightarrow> None)
      | (filename, JNonString) \<Rightarrow> None)"



section \<open>Folder name of a course URL (fixed\_scraper.py, firecrawl\_scraper.py)\<close>

text \<open>
  \<^verbatim>\<open>
  def extract_folder_name(self, url):
      path_parts = url.rstrip('/').split('/')
      for i, part in enumerate(path_parts):
          if part == 'imsmanifest.xml':
              if i > 0:
                  return path_parts[i-1]
      if len(path_parts) >= 2:
          return path_parts[-2]
      return "course_content"
  \<close>
  Both scrapers define the method with the same body. The loop is \<open>scan_manifest\<close>: it
  returns \<open>Some r\<close> when the body executes \<^verbatim>\<open>return\<close> and \<open>None\<close> when the loop runs
  to its end.
\<close>

definition manifest_name :: string where
  "manifest_name = ''imsmanifest.xml''"

definition path_parts :: "string \<Rightarrow> string list" where
  "path_parts url = split_char CHR ''/'' (rstrip_char CHR ''/'' url)"

fun scan_manifest :: "string list \<Rightarrow> nat \<Rightarrow> string list \<Rightarrow> (py_error + string) option" where
  "scan_manifest parts i [] = None"
| "scan_manifest parts i (part # rest) =
     (if part = manifest_name
      then (if 0 < i then Some (py_index parts (int i - 1))
            else scan_manifest parts (Suc i) rest)
      else scan_manifest parts (Suc i) rest)"

definition extract_folder_name :: "string \<Rightarrow> py_error + string" where
  "extract_folder_name url =
     (let parts = path_parts url
      in case scan_manifest parts 0 parts of
           Some r \<Rightarrow> r
         | None \<Rightarrow>
             if 2 \<le> length parts then py_index parts (- 2)
             else Inr ''course_content'')"

text \<open>
  The sentence under verification reads the first case as "the segment before the first
  occurrence of the manifest name". \<open>claimed_folder_name\<close> follows those words: it looks
  at the first occurrence only.
\<close>

fun first_occurrence :: "'a \<Rightarrow> 'a list \<Rightarrow> nat option" where
  "first_occurrence x [] = None"
| "first_occurrence x (y # ys) =
     (if y = x then Some 0 else map_option Suc (first_occurrence x ys))"

definition claimed_folder_name :: "string \<Rightarrow> string" where
  "claimed_folder_name url =
     (let parts = path_parts url
      in case first_occurrence manifest_name parts of
           Some (Suc k) \<Rightarrow> parts ! k
         | _ \<Rightarrow>
             if 2 \<le> length parts then parts ! (length parts - 2)
             else ''course_content'')"

section \<open>The bad-modules list (scrape\_bad\_modules.py, extract\_bad\_modules\_csv.py)\<close>

text \<open>
  A text file that may be missing is a \<open>string option\<close>: \<open>None\<close> when
  \<^verbatim>\<open>Path.exists()\<close> is false, otherwise the text the file object delivers.
  \<^verbatim>\<open>for line in f\<close> yields the lines of the text, each with its line feed; only the
  last line may lack one.
\<close>

fun file_lines :: "string \<Rightarrow> string list" where
  "file_lines [] = []"
| "file_lines (c # cs) =
     (if c = CHR 0x0A then [c] # file_lines cs
      else (case file_lines cs of
              [] \<Rightarrow> [[c]]
            | l # ls \<Rightarrow> (c # l) # ls))"

text \<open>
  \<^verbatim>\<open>
  bad_modules = []
  with open(bad_modules_path, "r") as f:
      for line in f:
          lesson_id = line.strip()
          if lesson_id and not lesson_id.startswith('#'):
              bad_modules.append(lesson_id)
  return bad_modules
  \<close>
  \<open>load_bad_modules_list\<close> is the function of scrape\_bad\_modules.py, which returns a
  list. The function of the same name in extract\_bad\_modules\_csv.py differs only in
  collecting into a \<^verbatim>\<open>set()\<close> with \<^verbatim>\<open>add\<close>; it is \<open>load_bad_modules_set\<close> here.
\<close>

fun append_lesson_ids :: "string list \<Rightarrow> string list \<Rightarrow> string list" where
  "append_lesson_ids bad_modules [] = bad_modules"
| "append_lesson_ids bad_modules (line # rest) =
     (let lesson_id = strip line
      in if lesson_id \<noteq> [] \<and> \<not> startswith lesson_id ''#''
         then append_lesson_ids (bad_modules @ [lesson_id]) rest
         else append_lesson_ids bad_modules rest)"

definition load_bad_modules_list :: "string option \<Rightarrow> string list" where
  "load_bad_modules_list bad_modules_file =
     (case bad_modules_file of
        None \<Rightarrow> []
      | Some text \<Rightarrow> append_lesson_ids [] (file_lines text))"

fun add_lesson_ids :: "string set \<Rightarrow> string list \<Rightarrow> string set" where
  "add_lesson_ids bad_modules [] = bad_modules"
| "add_lesson_ids bad_modules (line # rest) =
     (let lesson_id = strip line
      in if lesson_id \<noteq> [] \<and> \<not> startswith lesson_id ''#''
         then add_lesson_ids (insert lesson_id bad_modules) rest
         else add_lesson_ids bad_modules rest)"

definition load_bad_modules_set :: "string option \<Rightarrow> string set" where
  "load_bad_modules_set bad_modules_file =
     (case bad_modules_file of
        None \<Rightarrow> {}
      | Some text \<Rightarrow> add_lesson_ids {} (file_lines text))"

text \<open>A line is kept when its stripped text is neither empty nor a comment.\<close>

definition is_lesson_id :: "string \<Rightarrow> bool" where
  "is_lesson_id s = (s \<noteq> [] \<and> \<not> startswith s ''#'')"

section \<open>Filtering the main CSV (extract\_bad\_modules\_csv.py)\<close>








section \<open>Example inputs\<close>

definition bad_file_example :: string where
  "bad_file_example =
     '' L1 '' @ [CHR 0x0A] @ ''# retry later'' @ [CHR 0x0A] @ [CHR 0x0A] @
     ''L2'' @ [CHR 0x0D, CHR 0x0A] @ ''L1''"


text \<open>
  Stand-ins for the two library functions, defined on the few texts the examples use:
  a decoder that knows a large payload and a three-byte payload and rejects the rest,
  and a parser that knows one object.
\<close>

definition decoder_stub :: "string \<Rightarrow> py_error + bytes" where
  "decoder_stub s =
     (if s = ''LARGE'' then Inr (replicate 101 (CHR ''A''))
      else if s = ''QUJD'' then Inr ''ABC''
      else Inl ValueError)"

definition images_data_example :: "(string \<times> json_value) list" where
  "images_data_example =
     [(''icons/a'', JString ''LARGE''),
      (''b.png'', JString ''QUJD''),
      (''___'', JString ''LARGE''),
      (''  '', JString ''LARGE''),
      (''c.png'', JString '' ''),
      (''d.png'', JString ''%%%''),
      (''e.png'', JNonString),
      (''f/g.png'', JString ''LARGE'')]"

definition parser_stub :: "string \<Rightarrow> (string \<times> json_value) list option" where
  "parser_stub s = (if s = ''{images}'' then Some images_data_example else None)"

definition blob_example :: string where
  "blob_example = ''var cp = {}; cp.imagesJSONCache12 = {images}; cp.imagesJSONCache13 = {};''"

section \<open>The batched parallel scraper (parallel\_scraper\_full.py, scrape\_bad\_modules.py)\<close>

text \<open>
  A course to scrape is the dictionary built by \<^verbatim>\<open>load_all_urls\<close>, always with the keys
  \<^verbatim>\<open>url\<close>, \<^verbatim>\<open>lesson_id\<close> and \<^verbatim>\<open>lesson_name\<close>; \<^verbatim>\<open>load_matching_urls_from_csv\<close> of
  scrape\_bad\_modules.py adds \<^verbatim>\<open>course_id\<close> and \<^verbatim>\<open>course_name\<close>. A task is the tuple
  \<^verbatim>\<open>(url_data, api_key, worker_id, batch_num)\<close>.
\<close>

record url_data =
  url :: string
  lesson_id :: string
  lesson_name :: string
  course_id :: "string option"
  course_name :: "string option"

type_synonym task = "url_data \<times> string \<times> nat \<times> nat"

text \<open>
  Creating the scraper and calling \<^verbatim>\<open>process_course_url\<close> reach the scraping service;
  the model takes what happens there as a parameter: for each task, whether the call
  returned or raised an \<^verbatim>\<open>Exception\<close> with a given message, and the seconds measured.
  A result record is a dictionary; \<open>'t\<close> is the type of the measured duration.
\<close>

datatype outcome = Returned | Raised string

datatype 't py_value = PStr string | PInt nat | PTime 't

type_synonym 't world = "task \<Rightarrow> outcome \<times> 't"

type_synonym 't result = "string \<rightharpoonup> 't py_value"

text \<open>
  \<^verbatim>\<open>
  try:
      scraper = CourseContentScraper(api_key)
      result = scraper.process_course_url(url_data["url"])
      duration = time.time() - start_time
      return {"batch_num": batch_num, "worker_id": worker_id, "lesson_id": lesson_id,
              "status": "success", "duration": duration, "api_key": api_key[:20] + "..."}
  except Exception as e:
      duration = time.time() - start_time
      error_msg = str(e)[:200]
      return {"batch_num": batch_num, "worker_id": worker_id, "lesson_id": lesson_id,
              "status": "failed", "duration": duration, "error": error_msg,
              "api_key": api_key[:20] + "..."}
  \<close>
\<close>

definition scrape_single_course :: "'t world \<Rightarrow> task \<Rightarrow> 't result" where
  "scrape_single_course world args =
     (case args of (url_data, api_key, worker_id, batch_num) \<Rightarrow>
        (case world args of
           (Returned, duration) \<Rightarrow>
             [''batch_num'' \<mapsto> PInt batch_num,
              ''worker_id'' \<mapsto> PInt worker_id,
              ''lesson_id'' \<mapsto> PStr (lesson_id url_data),
              ''status'' \<mapsto> PStr ''success'',
              ''duration'' \<mapsto> PTime duration,
              ''api_key'' \<mapsto> PStr (take 20 api_key @ ''...'')]
         | (Raised e, duration) \<Rightarrow>
             let error_msg = take 200 e
             in [''batch_num'' \<mapsto> PInt batch_num,
                 ''worker_id'' \<mapsto> PInt worker_id,
                 ''lesson_id'' \<mapsto> PStr (lesson_id url_data),
                 ''status'' \<mapsto> PStr ''failed'',
                 ''duration'' \<mapsto> PTime duration,
                 ''error'' \<mapsto> PStr error_msg,
                 ''api_key'' \<mapsto> PStr (take 20 api_key @ ''...'')]))"



text \<open>
  \<^verbatim>\<open>
  tasks = []
  for i, url_data in enumerate(batch_urls):
      api_key = api_keys[i % len(api_keys)]
      worker_id = i + 1
      tasks.append((url_data, api_key, worker_id, batch_num))
  max_workers = min(len(batch_urls), len(api_keys))
  with concurrent.futures.ThreadPoolExecutor(max_workers=max_workers) as executor:
      batch_results = list(executor.map(scrape_single_course, tasks))
  \<close>
  \<^verbatim>\<open>i % len(api_keys)\<close> raises \<^verbatim>\<open>ZeroDivisionError\<close> without keys, and the executor raises
  \<^verbatim>\<open>ValueError\<close> when \<^verbatim>\<open>max_workers\<close> is not positive. \<^verbatim>\<open>executor.map\<close> gives the
  results in the order of the tasks. The model of \<^verbatim>\<open>process_batch\<close> returns the tasks
  and the pool size with the results, so that properties of them can be stated.
\<close>

fun make_tasks :: "string list \<Rightarrow> nat \<Rightarrow> task list \<Rightarrow> nat \<Rightarrow> url_data list
    \<Rightarrow> py_error + task list" where
  "make_tasks api_keys batch_num tasks i [] = Inr tasks"
| "make_tasks api_keys batch_num tasks i (url_data # rest) =
     (if length api_keys = 0 then Inl ZeroDivisionError
      else
        let api_key = api_keys ! (i mod length api_keys);
            worker_id = i + 1
        in make_tasks api_keys batch_num
             (tasks @ [(url_data, api_key, worker_id, batch_num)]) (Suc i) rest)"

record 't batch_run =
  tasks :: "task list"
  max_workers :: nat
  batch_results :: "'t result list"

definition process_batch ::
  "'t world \<Rightarrow> url_data list \<Rightarrow> string list \<Rightarrow> nat \<Rightarrow> py_error + 't batch_run" where
  "process_batch world batch_urls api_keys batch_num =
     (case make_tasks api_keys batch_num [] 0 batch_urls of
        Inl e \<Rightarrow> Inl e
      | Inr ts \<Rightarrow>
          let workers = min (length batch_urls) (length api_keys)
          in if workers \<le> 0 then Inl ValueError
             else Inr \<lparr>tasks = ts, max_workers = workers,
                       batch_results = map (scrape_single_course world) ts\<rparr>)"

text \<open>
  The batch loop of \<^verbatim>\<open>main\<close>:
  \<^verbatim>\<open>
  batch_size = len(api_keys)
  total_batches = (len(urls) + batch_size - 1) // batch_size
  for batch_num in range(1, total_batches + 1):
      start_idx = (batch_num - 1) * batch_size
      end_idx = min(start_idx + batch_size, len(urls))
      batch_urls = urls[start_idx:end_idx]
      batch_results = process_batch(batch_urls, api_keys, batch_num, total_batches)
      all_results.extend(batch_results)
  \<close>
  \<open>main_batches\<close> is \<^verbatim>\<open>main\<close> up to the end of this loop; its result lists the batches
  in the order they ran.
\<close>

fun run_batches :: "'t world \<Rightarrow> url_data list \<Rightarrow> string list \<Rightarrow> nat \<Rightarrow> nat list
    \<Rightarrow> py_error + 't batch_run list" where
  "run_batches world urls api_keys batch_size [] = Inr []"
| "run_batches world urls api_keys batch_size (batch_num # later) =
     (let start_idx = (batch_num - 1) * batch_size;
          end_idx = min (start_idx + batch_size) (length urls);
          batch_urls = drop start_idx (take end_idx urls)
      in case process_batch world batch_urls api_keys batch_num of
           Inl e \<Rightarrow> Inl e
         | Inr run \<Rightarrow>
             (case run_batches world urls api_keys batch_size later of
                Inl e \<Rightarrow> Inl e
              | Inr runs \<Rightarrow> Inr (run # runs)))"

definition main_batches ::
  "'t world \<Rightarrow> url_data list \<Rightarrow> string list \<Rightarrow> py_error + 't batch_run list" where
  "main_batches world urls api_keys =
     (let batch_size = length api_keys
      in if batch_size = 0 then Inl ZeroDivisionError
         else
           let total_batches = (length urls + batch_size - 1) div batch_size
           in run_batches world urls api_keys batch_size [1 ..< total_batches + 1])"

text \<open>\<^verbatim>\<open>all_results\<close> after the loop, and the tasks behind it in the same order.\<close>

definition all_results :: "'t batch_run list \<Rightarrow> 't result list" where
  "all_results runs = concat (map batch_results runs)"

definition all_tasks :: "'t batch_run list \<Rightarrow> task list" where
  "all_tasks runs = concat (map tasks runs)"

text \<open>
  parallel\_scraper\_demo.py runs one batch of the first ten courses:
  \<^verbatim>\<open>max_workers = min(10, len(api_keys))\<close>.
\<close>

definition load_first_10_urls :: "url_data list \<Rightarrow> url_data list" where
  "load_first_10_urls rows = take 10 rows"

definition demo_max_workers :: "string list \<Rightarrow> nat" where
  "demo_max_workers api_keys = min 10 (length api_keys)"

text \<open>
  The global round-robin rule: the task with overall index \<open>t\<close> gets the key
  \<open>t mod K\<close>; its worker number and batch number follow from \<open>t\<close> as well.
\<close>

definition round_robin_task :: "url_data list \<Rightarrow> string list \<Rightarrow> nat \<Rightarrow> task" where
  "round_robin_task urls api_keys t =
     (urls ! t, api_keys ! (t mod length api_keys),
      t mod length api_keys + 1, t div length api_keys + 1)"


text \<open>
  Five courses, two keys, and a service that rejects the second course and serves the
  others.
\<close>

definition course_example :: "string \<Rightarrow> url_data" where
  "course_example name =
     \<lparr>url = ''https://cdn.example/lms/'' @ name @ ''/imsmanifest.xml'',
      lesson_id = name, lesson_name = ''Lesson '' @ name,
      course_id = None, course_name = None\<rparr>"

definition urls_example :: "url_data list" where
  "urls_example = map course_example [''L1'', ''L2'', ''L3'', ''L4'', ''L5'']"

definition api_keys_example :: "string list" where
  "api_keys_example = [''fc-key-A'', ''fc-key-B'']"

definition world_stub :: "nat world" where
  "world_stub args =
     (case args of (url_data, api_key, worker_id, batch_num) \<Rightarrow>
        if lesson_id url_data = ''L2'' then (Raised ''HTTP 429: rate limit exceeded'', 3)
        else (Returned, 7))"


section \<open>Proofs: image extraction\<close>

subsection \<open>The regular expression finds the first, shortest match\<close>


lemma startswith_iff: "startswith s t \<longleftrightarrow> (\<exists>r. s = t @ r)"
  by (induction s t rule: startswith.induct) auto

lemma endswith_iff: "endswith s t \<longleftrightarrow> (\<exists>r. s = r @ t)"
proof -
  have "(\<exists>r. rev s = rev t @ r) \<longleftrightarrow> (\<exists>r. s = r @ t)"
  proof
    assume "\<exists>r. rev s = rev t @ r"
    then obtain r where "rev s = rev t @ r" ..
    then have "rev (rev s) = rev (rev t @ r)" by simp
    then have "s = rev r @ t" by simp
    then show "\<exists>r. s = r @ t" ..
  next
    assume "\<exists>r. s = r @ t"
    then obtain r where "s = r @ t" ..
    then have "rev s = rev t @ rev r" by simp
    then show "\<exists>r. rev s = rev t @ r" ..
  qed
  then show ?thesis by (simp add: endswith_def startswith_iff)
qed














subsection \<open>One entry and the loop over the entries\<close>

lemma process_entry_image:
  "process_entry b64decode st entry =
     (case entry_image b64decode entry of
        None \<Rightarrow> st
      | Some (name, image_data) \<Rightarrow>
          st\<lparr>files := (files st)(name \<mapsto> image_data),
              extracted_count := extracted_count st + 1\<rparr>)"
  by (cases entry)
     (auto simp: process_entry_def entry_body_def entry_image_def Let_def
           split: json_value.splits sum.splits)


lemma extract_entries_count:
  "extracted_count (extract_entries b64decode st entries)
     = extracted_count st + length (List.map_filter (entry_image b64decode) entries)"
  by (induction entries arbitrary: st)
     (auto simp: process_entry_image List.map_filter_simps split: option.splits)

lemma extract_entries_files:
  "files (extract_entries b64decode st entries)
     = files st ++ map_of (rev (List.map_filter (entry_image b64decode) entries))"
proof (induction entries arbitrary: st)
  case Nil
  then show ?case by (simp add: List.map_filter_simps)
next
  case (Cons entry rest)
  show ?case
  proof (cases "entry_image b64decode entry")
    case None
    then show ?thesis
      by (simp add: process_entry_image List.map_filter_simps Cons.IH)
  next
    case (Some written)
    obtain name image_data where w: "written = (name, image_data)" by (cases written)
    let ?R = "List.map_filter (entry_image b64decode) rest"
    have "files (extract_entries b64decode st (entry # rest))
        = files (process_entry b64decode st entry) ++ map_of (rev ?R)"
      by (simp add: Cons.IH)
    also have "files (process_entry b64decode st entry) = (files st)(name \<mapsto> image_data)"
      using Some w by (simp add: process_entry_image)
    also have "(files st)(name \<mapsto> image_data) ++ map_of (rev ?R)
        = files st ++ map_of (rev ?R @ [(name, image_data)])"
      by (simp add: map_add_assoc)
    also have "rev ?R @ [(name, image_data)]
        = rev (List.map_filter (entry_image b64decode) (entry # rest))"
      using Some w by (simp add: List.map_filter_simps)
    finally show ?thesis .
  qed
qed

lemma startswith_map:
  "(\<And>c x. c \<in> set t \<Longrightarrow> f x = c \<longleftrightarrow> x = c) \<Longrightarrow> startswith (map f s) t \<longleftrightarrow> startswith s t"
proof (induction s t rule: startswith.induct)
  case (1 s)
  then show ?case by simp
next
  case (2 t ts)
  then show ?case by simp
next
  case (3 x xs t ts)
  then have "startswith (map f xs) ts \<longleftrightarrow> startswith xs ts" by simp
  moreover from 3(2) have "f x = t \<longleftrightarrow> x = t" by simp
  ultimately show ?case by simp
qed

text \<open>
  Claim C5. The sanitized name is the key with every \<open>/\<close> replaced by \<open>_\<close>, position by
  position, and with \<open>.png\<close> appended unless the replaced name already ends in \<open>.png\<close>,
  which it does exactly when the key does.
  It contains no \<open>/\<close> and ends in \<open>.png\<close>, and it is the only name under which
  processing the entry can change the output directory.
\<close>

theorem clean_filename_sanitized:
  "length (replace_char CHR ''/'' CHR ''_'' filename) = length filename \<and>
   (\<forall>i < length filename.
      replace_char CHR ''/'' CHR ''_'' filename ! i
        = (if filename ! i = CHR ''/'' then CHR ''_'' else filename ! i)) \<and>
   clean_filename filename
     = (if \<exists>stem. replace_char CHR ''/'' CHR ''_'' filename = stem @ ''.png''
        then replace_char CHR ''/'' CHR ''_'' filename
        else replace_char CHR ''/'' CHR ''_'' filename @ ''.png'') \<and>
   (endswith (replace_char CHR ''/'' CHR ''_'' filename) ''.png'' \<longleftrightarrow> endswith filename ''.png'') \<and>
   CHR ''/'' \<notin> set (clean_filename filename) \<and>
   endswith (clean_filename filename) ''.png'' \<and>
   (\<forall>name. files (process_entry b64decode st (filename, base64_data)) name \<noteq> files st name
      \<longrightarrow> name = clean_filename filename)"
proof -
  let ?r = "replace_char CHR ''/'' CHR ''_'' filename"
  have len: "length ?r = length filename" by (simp add: replace_char_def)
  have nth: "\<forall>i < length filename.
      ?r ! i = (if filename ! i = CHR ''/'' then CHR ''_'' else filename ! i)"
    by (simp add: replace_char_def)
  have def: "clean_filename filename = (if \<exists>stem. ?r = stem @ ''.png'' then ?r else ?r @ ''.png'')"
    by (simp add: clean_filename_def Let_def endswith_iff)
  have same_ext: "endswith ?r ''.png'' \<longleftrightarrow> endswith filename ''.png''"
    unfolding endswith_def replace_char_def rev_map
    by (rule startswith_map) auto
  have no_sep: "CHR ''/'' \<notin> set ?r" by (auto simp: replace_char_def)
  then have sep: "CHR ''/'' \<notin> set (clean_filename filename)"
    by (simp add: clean_filename_def Let_def)
  have ends: "endswith (clean_filename filename) ''.png''"
    unfolding endswith_iff clean_filename_def Let_def
    by (cases "endswith ?r ''.png''") (auto simp: endswith_iff)
  have "name = clean_filename filename"
    if "files (process_entry b64decode st (filename, base64_data)) name \<noteq> files st name" for name
    using that
    by (auto simp: process_entry_image entry_image_def
             split: option.splits json_value.splits sum.splits if_splits)
  with len nth def same_ext sep ends show ?thesis by blast
qed

text \<open>
  C5 at a key with a separator and no extension, and at a key that has the extension.
\<close>

theorem clean_filename_sanitized_witness:
  "clean_filename ''icons/a'' = ''icons_a.png'' \<and>
   clean_filename ''f/g.png'' = ''f_g.png'' \<and>
   files (process_entry decoder_stub \<lparr>files = Map.empty, extracted_count = 0\<rparr>
            (''f/g.png'', JString ''LARGE'')) ''f_g.png'' \<noteq> None"
proof -
  let ?st = "\<lparr>files = Map.empty, extracted_count = 0\<rparr>"
  note main = clean_filename_sanitized [of "''f/g.png''" decoder_stub ?st "JString ''LARGE''"]
  have a: "clean_filename ''icons/a'' = ''icons_a.png''"
    using clean_filename_sanitized [of "''icons/a''" decoder_stub ?st "JString ''LARGE''"]
    by (simp add: clean_filename_def replace_char_def endswith_def)
  have b: "clean_filename ''f/g.png'' = ''f_g.png''"
    by (simp add: clean_filename_def replace_char_def endswith_def)
  have "files (process_entry decoder_stub ?st (''f/g.png'', JString ''LARGE'')) ''f_g.png''
      \<noteq> files ?st ''f_g.png''"
    by (simp add: process_entry_def entry_body_def decoder_stub_def strip_def is_space_def b)
  then have "files (process_entry decoder_stub ?st (''f/g.png'', JString ''LARGE'')) ''f_g.png''
      \<noteq> None" by simp
  with a b main show ?thesis by blast
qed


lemma map_add_twice: "(m ++ w) ++ w = m ++ w"
  by (rule ext) (simp add: map_add_def split: option.splits)

text \<open>
  Claim C7. The model is a function of the file content and the directory, so a run is
  determined by them. Running the extraction again on the directory the first run left
  returns the same count and leaves the same directory: the same file names with the
  same bytes.
\<close>

theorem extract_images_from_json_idempotent:
  "extract_images_from_json json_loads b64decode json_file
      (snd (extract_images_from_json json_loads b64decode json_file output_dir))
     = extract_images_from_json json_loads b64decode json_file output_dir"
proof (cases json_file)
  case None
  then show ?thesis by (simp add: extract_images_from_json_def)
next
  case (Some content)
  show ?thesis
  proof (cases "re_search content")
    case None
    with Some show ?thesis by (simp add: extract_images_from_json_def)
  next
    case found: (Some json_str)
    show ?thesis
    proof (cases "json_loads json_str")
      case None
      with Some found show ?thesis by (simp add: extract_images_from_json_def)
    next
      case parsed: (Some images_data)
      let ?written = "map_of (rev (List.map_filter (entry_image b64decode) images_data))"
      have run: "extract_images_from_json json_loads b64decode json_file d
          = (length (List.map_filter (entry_image b64decode) images_data), d ++ ?written)" for d
        using Some found parsed
        by (simp add: extract_images_from_json_def Let_def extract_entries_count
            extract_entries_files)
      have "(output_dir ++ ?written) ++ ?written = output_dir ++ ?written"
        by (rule map_add_twice)
      then show ?thesis by (simp add: run)
    qed
  qed
qed




lemma blob_example_search: "re_search blob_example = Some ''{images}''"
  by (simp add: blob_example_def match_here_def match_open_def is_digit_def is_space_def)

lemma images_data_example_run:
  "extract_entries decoder_stub \<lparr>files = Map.empty, extracted_count = 0\<rparr> images_data_example
     = \<lparr>files = [''icons_a.png'' \<mapsto> replicate 101 (CHR ''A''),
                  ''f_g.png'' \<mapsto> replicate 101 (CHR ''A'')],
         extracted_count = 2\<rparr>"
  by (simp add: images_data_example_def process_entry_def entry_body_def decoder_stub_def
        strip_def is_space_def clean_filename_def replace_char_def endswith_def)


text \<open>
  C7 on the example blob: the second run, started on the two files of the first.
\<close>

theorem extract_images_from_json_idempotent_witness:
  "extract_images_from_json parser_stub decoder_stub (Some blob_example)
      [''icons_a.png'' \<mapsto> replicate 101 (CHR ''A''),
       ''f_g.png'' \<mapsto> replicate 101 (CHR ''A'')]
     = (2, [''icons_a.png'' \<mapsto> replicate 101 (CHR ''A''),
            ''f_g.png'' \<mapsto> replicate 101 (CHR ''A'')])"
proof -
  have first: "extract_images_from_json parser_stub decoder_stub (Some blob_example) Map.empty
     = (2, [''icons_a.png'' \<mapsto> replicate 101 (CHR ''A''),
            ''f_g.png'' \<mapsto> replicate 101 (CHR ''A'')])"
    by (simp add: extract_images_from_json_def blob_example_search parser_stub_def
        images_data_example_run)
  from extract_images_from_json_idempotent
    [of parser_stub decoder_stub "Some blob_example" Map.empty]
  show ?thesis unfolding first by simp
qed

section \<open>Proofs: filtering the main CSV\<close>




section \<open>Proofs: folder name of a course URL\<close>

lemma split_char_not_Nil: "split_char c s \<noteq> []"
  by (induction s) (auto split: list.splits)

lemma scan_manifest_None:
  "scan_manifest parts i rest = None \<longleftrightarrow>
     (\<forall>k < length rest. rest ! k = manifest_name \<longrightarrow> i + k = 0)"
proof (induction rest arbitrary: i)
  case Nil
  then show ?case by simp
next
  case (Cons part rest)
  show ?case
  proof (cases "part = manifest_name \<and> 0 < i")
    case True
    then show ?thesis by auto
  next
    case False
    then have "scan_manifest parts i (part # rest) = scan_manifest parts (Suc i) rest"
      by auto
    also have "\<dots> = None \<longleftrightarrow> (\<forall>k < length rest. rest ! k = manifest_name \<longrightarrow> Suc i + k = 0)"
      by (rule Cons.IH)
    finally show ?thesis using False
      by (auto simp: nth_Cons split: nat.splits)
  qed
qed

lemma scan_manifest_Some:
  "k < length rest \<Longrightarrow> rest ! k = manifest_name \<Longrightarrow> 0 < i + k \<Longrightarrow>
   (\<forall>j < k. rest ! j = manifest_name \<longrightarrow> i + j = 0) \<Longrightarrow>
   scan_manifest parts i rest = Some (py_index parts (int (i + k) - 1))"
proof (induction rest arbitrary: i k)
  case Nil
  then show ?case by simp
next
  case (Cons part rest)
  show ?case
  proof (cases k)
    case 0
    with Cons.prems show ?thesis by simp
  next
    case (Suc k')
    from Cons.prems(4) Suc have first: "part = manifest_name \<longrightarrow> i = 0"
      by auto
    have "scan_manifest parts (Suc i) rest = Some (py_index parts (int (Suc i + k') - 1))"
    proof (rule Cons.IH)
      show "k' < length rest" using Cons.prems(1) Suc by simp
      show "rest ! k' = manifest_name" using Cons.prems(2) Suc by simp
      show "0 < Suc i + k'" by simp
      show "\<forall>j<k'. rest ! j = manifest_name \<longrightarrow> Suc i + j = 0"
      proof (intro allI impI)
        fix j assume "j < k'" "rest ! j = manifest_name"
        with Cons.prems(4) [rule_format, of "Suc j"] Suc show "Suc i + j = 0" by simp
      qed
    qed
    with first Suc show ?thesis by auto
  qed
qed

lemma py_index_pred: "0 < i \<Longrightarrow> i < length xs \<Longrightarrow> py_index xs (int i - 1) = Inr (xs ! (i - 1))"
  by (simp add: py_index_def nat_diff_distrib')

lemma py_index_second_last:
  "2 \<le> length xs \<Longrightarrow> py_index xs (- 2) = Inr (xs ! (length xs - 2))"
  by (simp add: py_index_def nat_diff_distrib')

text \<open>
  Claim C9, as the code has it. \<open>extract_folder_name\<close> never raises: it returns a
  string for every URL. Writing \<open>ps\<close> for the \<open>'/'\<close>-separated segments of the URL
  without its trailing slashes:
  \<^item> if the manifest name occurs at some index \<open>i > 0\<close>, the result is the segment
    before the first such occurrence (an occurrence at index 0 has no segment before
    it; the guard \<^verbatim>\<open>if i > 0\<close> skips it and the scan goes on);
  \<^item> otherwise, with at least two segments, the result is the second-to-last segment;
  \<^item> otherwise the result is \<^verbatim>\<open>"course_content"\<close>.
\<close>

theorem extract_folder_name_cases:
  "(\<exists>s. extract_folder_name xml_url = Inr s) \<and>
   (\<forall>i. 0 < i \<and> i < length (path_parts xml_url) \<and> path_parts xml_url ! i = manifest_name \<and>
        (\<forall>j. 0 < j \<and> j < i \<longrightarrow> path_parts xml_url ! j \<noteq> manifest_name)
        \<longrightarrow> extract_folder_name xml_url = Inr (path_parts xml_url ! (i - 1))) \<and>
   ((\<forall>i. 0 < i \<and> i < length (path_parts xml_url) \<longrightarrow> path_parts xml_url ! i \<noteq> manifest_name) \<and>
      2 \<le> length (path_parts xml_url)
        \<longrightarrow> extract_folder_name xml_url = Inr (path_parts xml_url ! (length (path_parts xml_url) - 2))) \<and>
   ((\<forall>i. 0 < i \<and> i < length (path_parts xml_url) \<longrightarrow> path_parts xml_url ! i \<noteq> manifest_name) \<and>
      length (path_parts xml_url) < 2
        \<longrightarrow> extract_folder_name xml_url = Inr ''course_content'')"
proof -
  define ps where "ps = path_parts xml_url"
  have found: "extract_folder_name xml_url = Inr (ps ! (i - 1))"
    if "0 < i" "i < length ps" "ps ! i = manifest_name"
       "\<forall>j. 0 < j \<and> j < i \<longrightarrow> ps ! j \<noteq> manifest_name" for i
  proof -
    have "scan_manifest ps 0 ps = Some (py_index ps (int (0 + i) - 1))"
      using that by (intro scan_manifest_Some) auto
    then show ?thesis
      using that by (simp add: extract_folder_name_def ps_def [symmetric] py_index_pred)
  qed
  have absent: "scan_manifest ps 0 ps = None"
    if "\<forall>i. 0 < i \<and> i < length ps \<longrightarrow> ps ! i \<noteq> manifest_name"
    using that by (auto simp: scan_manifest_None)
  have total: "\<exists>s. extract_folder_name xml_url = Inr s"
  proof (cases "\<exists>i. 0 < i \<and> i < length ps \<and> ps ! i = manifest_name")
    case True
    define i where "i = (LEAST i. 0 < i \<and> i < length ps \<and> ps ! i = manifest_name)"
    have "0 < i \<and> i < length ps \<and> ps ! i = manifest_name"
      unfolding i_def using True by (rule LeastI_ex)
    moreover have "\<not> (0 < j \<and> j < length ps \<and> ps ! j = manifest_name)" if "j < i" for j
      using that unfolding i_def by (rule not_less_Least)
    ultimately have "0 < i" "i < length ps" "ps ! i = manifest_name"
      "\<forall>j. 0 < j \<and> j < i \<longrightarrow> ps ! j \<noteq> manifest_name"
      by (auto dest: less_trans)
    then show ?thesis using found by blast
  next
    case False
    then have "scan_manifest ps 0 ps = None" by (intro absent) blast
    then show ?thesis
      by (simp add: extract_folder_name_def ps_def [symmetric] py_index_second_last)
  qed
  show ?thesis
    unfolding ps_def [symmetric]
    using total found absent
    by (auto simp: extract_folder_name_def ps_def [symmetric] py_index_second_last)
qed

text \<open>The three cases of C9 at a manifest URL, a directory URL and a bare name.\<close>

theorem extract_folder_name_cases_witness:
  "extract_folder_name ''https://cdn.example/lms/course42/imsmanifest.xml'' = Inr ''course42'' \<and>
   extract_folder_name ''https://cdn.example/lms/course42/'' = Inr ''lms'' \<and>
   extract_folder_name ''course42'' = Inr ''course_content''"
proof -
  let ?u = "''https://cdn.example/lms/course42/imsmanifest.xml''"
  have ps: "path_parts ?u =
     [''https:'', '''', ''cdn.example'', ''lms'', ''course42'', ''imsmanifest.xml'']"
    by (simp add: path_parts_def rstrip_char_def)
  have "0 < (5::nat) \<and> 5 < length (path_parts ?u) \<and> path_parts ?u ! 5 = manifest_name \<and>
        (\<forall>j. 0 < j \<and> j < 5 \<longrightarrow> path_parts ?u ! j \<noteq> manifest_name)"
    unfolding ps by (auto simp: manifest_name_def nth_Cons split: nat.splits)
  with extract_folder_name_cases [of ?u]
  have a: "extract_folder_name ?u = Inr (path_parts ?u ! (5 - 1))" by blast
  let ?v = "''https://cdn.example/lms/course42/''"
  have pv: "path_parts ?v = [''https:'', '''', ''cdn.example'', ''lms'', ''course42'']"
    by (simp add: path_parts_def rstrip_char_def)
  have "(\<forall>i. 0 < i \<and> i < length (path_parts ?v) \<longrightarrow> path_parts ?v ! i \<noteq> manifest_name) \<and>
        2 \<le> length (path_parts ?v)"
    unfolding pv by (auto simp: manifest_name_def nth_Cons split: nat.splits)
  with extract_folder_name_cases [of ?v]
  have b: "extract_folder_name ?v = Inr (path_parts ?v ! (length (path_parts ?v) - 2))" by blast
  let ?w = "''course42''"
  have pw: "path_parts ?w = [''course42'']"
    by (simp add: path_parts_def rstrip_char_def)
  have "(\<forall>i. 0 < i \<and> i < length (path_parts ?w) \<longrightarrow> path_parts ?w ! i \<noteq> manifest_name) \<and>
        length (path_parts ?w) < 2"
    unfolding pw by simp
  with extract_folder_name_cases [of ?w]
  have c: "extract_folder_name ?w = Inr ''course_content''" by blast
  from a b c show ?thesis unfolding ps pv by simp
qed

text \<open>
  C9 as worded fails where the first occurrence of the manifest name is the first
  segment and a later occurrence exists: the first occurrence has nothing before it,
  the words then give the second-to-last segment \<open>y\<close>, and the code returns \<open>x\<close>, the
  segment before the second occurrence.
\<close>

theorem first_occurrence_counterexample:
  "path_parts ''imsmanifest.xml/x/imsmanifest.xml/y/z'' =
     [''imsmanifest.xml'', ''x'', ''imsmanifest.xml'', ''y'', ''z''] \<and>
   first_occurrence manifest_name (path_parts ''imsmanifest.xml/x/imsmanifest.xml/y/z'') = Some 0 \<and>
   extract_folder_name ''imsmanifest.xml/x/imsmanifest.xml/y/z'' = Inr ''x'' \<and>
   claimed_folder_name ''imsmanifest.xml/x/imsmanifest.xml/y/z'' = ''y'' \<and>
   extract_folder_name ''imsmanifest.xml/x/imsmanifest.xml/y/z''
     \<noteq> Inr (claimed_folder_name ''imsmanifest.xml/x/imsmanifest.xml/y/z'')"
proof -
  have ps: "path_parts ''imsmanifest.xml/x/imsmanifest.xml/y/z'' =
     [''imsmanifest.xml'', ''x'', ''imsmanifest.xml'', ''y'', ''z'']"
    by (simp add: path_parts_def rstrip_char_def)
  show ?thesis
    unfolding extract_folder_name_def claimed_folder_name_def ps
    by (simp add: manifest_name_def py_index_def)
qed

section \<open>Proofs: the bad-modules list\<close>

lemma append_lesson_ids_eq:
  "append_lesson_ids acc ls = acc @ filter is_lesson_id (map strip ls)"
  by (induction ls arbitrary: acc) (simp_all add: is_lesson_id_def Let_def)

lemma add_lesson_ids_eq:
  "add_lesson_ids acc ls = acc \<union> set (filter is_lesson_id (map strip ls))"
  by (induction ls arbitrary: acc) (auto simp: is_lesson_id_def Let_def)

text \<open>
  Claim C10. For an existing file the list variant returns exactly the stripped lines,
  in file order, that are non-empty and do not start with \<open>#\<close>; the set variant
  returns the set of those strings, so a repeated id counts once; no returned string is
  empty or a comment; a missing file gives the empty list and the empty set.
\<close>

theorem load_bad_modules_list_filter:
  "load_bad_modules_list None = [] \<and>
   load_bad_modules_set None = {} \<and>
   load_bad_modules_list (Some text) = filter is_lesson_id (map strip (file_lines text)) \<and>
   load_bad_modules_set bad_modules_file = set (load_bad_modules_list bad_modules_file) \<and>
   card (load_bad_modules_set bad_modules_file)
     = length (remdups (load_bad_modules_list bad_modules_file)) \<and>
   [] \<notin> set (load_bad_modules_list bad_modules_file) \<and>
   (\<forall>s \<in> set (load_bad_modules_list bad_modules_file). \<not> startswith s ''#'')"
proof -
  have l: "load_bad_modules_list (Some t) = filter is_lesson_id (map strip (file_lines t))" for t
    by (simp add: load_bad_modules_list_def append_lesson_ids_eq)
  have s: "load_bad_modules_set f = set (load_bad_modules_list f)" for f
    by (cases f) (simp_all add: load_bad_modules_set_def load_bad_modules_list_def
        append_lesson_ids_eq add_lesson_ids_eq)
  have k: "is_lesson_id x" if "x \<in> set (load_bad_modules_list f)" for x f
    using that by (cases f) (auto simp: load_bad_modules_list_def append_lesson_ids_eq)
  have "card (load_bad_modules_set bad_modules_file)
     = length (remdups (load_bad_modules_list bad_modules_file))"
    unfolding s by (simp add: length_remdups_card_conv)
  moreover have "[] \<notin> set (load_bad_modules_list bad_modules_file)"
    using k [of "[]" bad_modules_file] by (auto simp: is_lesson_id_def)
  moreover have "\<forall>s \<in> set (load_bad_modules_list bad_modules_file). \<not> startswith s ''#''"
    using k [of _ bad_modules_file] by (auto simp: is_lesson_id_def)
  ultimately show ?thesis
    using l s by (simp add: load_bad_modules_list_def load_bad_modules_set_def)
qed

text \<open>A file with padded ids, a comment, a blank line, a CRLF line and a repeated id.\<close>

theorem load_bad_modules_list_filter_witness:
  "load_bad_modules_list (Some bad_file_example) = [''L1'', ''L2'', ''L1''] \<and>
   load_bad_modules_set (Some bad_file_example) = {''L1'', ''L2''} \<and>
   card (load_bad_modules_set (Some bad_file_example)) = 2"
proof -
  note main = load_bad_modules_list_filter [of bad_file_example "Some bad_file_example"]
  have lines: "file_lines bad_file_example =
      ['' L1 '' @ [CHR 0x0A], ''# retry later'' @ [CHR 0x0A], [CHR 0x0A],
       ''L2'' @ [CHR 0x0D, CHR 0x0A], ''L1'']"
    by (simp add: bad_file_example_def)
  have kept: "filter is_lesson_id (map strip (file_lines bad_file_example))
      = [''L1'', ''L2'', ''L1'']"
    unfolding lines by (simp add: strip_def is_space_def is_lesson_id_def)
  from main have l: "load_bad_modules_list (Some bad_file_example) = [''L1'', ''L2'', ''L1'']"
    unfolding kept by (elim conjE)
  from main have "load_bad_modules_set (Some bad_file_example)
      = set (load_bad_modules_list (Some bad_file_example))"
    by (elim conjE)
  also have "\<dots> = {''L1'', ''L2''}"
    unfolding l by (simp add: insert_commute)
  finally have s: "load_bad_modules_set (Some bad_file_example) = {''L1'', ''L2''}" .
  have "card (load_bad_modules_set (Some bad_file_example)) = 2"
    unfolding s by simp
  with l s show ?thesis by (intro conjI)
qed

section \<open>Proofs: the batched parallel scraper\<close>

lemma make_tasks_eq:
  "0 < length api_keys \<Longrightarrow>
   make_tasks api_keys batch_num acc i batch_urls
     = Inr (acc @ map (\<lambda>j. (batch_urls ! j, api_keys ! ((i + j) mod length api_keys),
                                i + j + 1, batch_num)) [0 ..< length batch_urls])"
proof (induction batch_urls arbitrary: acc i)
  case Nil
  then show ?case by simp
next
  case (Cons u rest)
  have "map (\<lambda>j. ((u # rest) ! j, api_keys ! ((i + j) mod length api_keys), i + j + 1, batch_num))
          [0 ..< length (u # rest)]
      = (u, api_keys ! (i mod length api_keys), i + 1, batch_num) #
        map (\<lambda>j. (rest ! j, api_keys ! ((Suc i + j) mod length api_keys), Suc i + j + 1, batch_num))
          [0 ..< length rest]"
  proof -
    have "[0 ..< length (u # rest)] = 0 # map Suc [0 ..< length rest]"
      by (simp add: upt_conv_Cons map_Suc_upt del: upt_Suc)
    then show ?thesis by (simp add: o_def del: upt_Suc)
  qed
  with Cons show ?case by (simp add: Let_def)
qed

lemma process_batch_eq:
  assumes "0 < length api_keys" "batch_urls \<noteq> []"
  shows "process_batch world batch_urls api_keys batch_num
     = Inr \<lparr>tasks = map (\<lambda>j. (batch_urls ! j, api_keys ! (j mod length api_keys), j + 1, batch_num))
                      [0 ..< length batch_urls],
            max_workers = min (length batch_urls) (length api_keys),
            batch_results = map (scrape_single_course world)
               (map (\<lambda>j. (batch_urls ! j, api_keys ! (j mod length api_keys), j + 1, batch_num))
                      [0 ..< length batch_urls])\<rparr>"
  using assms by (simp add: process_batch_def make_tasks_eq Let_def)

lemma one_batch:
  assumes K: "0 < length api_keys" and start: "lo * length api_keys < length urls"
  shows "\<exists>run.
     process_batch world
        (drop (lo * length api_keys)
           (take (min (lo * length api_keys + length api_keys) (length urls)) urls))
        api_keys (Suc lo) = Inr run \<and>
     tasks run = map (round_robin_task urls api_keys)
        [lo * length api_keys ..< min (Suc lo * length api_keys) (length urls)] \<and>
     max_workers run = min (length (tasks run)) (length api_keys) \<and>
     batch_results run = map (scrape_single_course world) (tasks run)"
proof -
  define K where "K = length api_keys"
  define s where "s = lo * K"
  define e where "e = min (s + K) (length urls)"
  define B where "B = drop s (take e urls)"
  have se: "s < e" "e \<le> length urls" "e - s \<le> K"
    using K start by (auto simp: e_def s_def K_def)
  have len: "length B = e - s" using se by (simp add: B_def)
  have nth: "B ! j = urls ! (s + j)" if "j < e - s" for j
    using that se by (simp add: B_def)
  have "B \<noteq> []" using len se by auto
  from process_batch_eq [OF K this, of world "Suc lo"]
  have run: "process_batch world B api_keys (Suc lo)
     = Inr \<lparr>tasks = map (\<lambda>j. (B ! j, api_keys ! (j mod K), j + 1, Suc lo)) [0 ..< length B],
            max_workers = min (length B) K,
            batch_results = map (scrape_single_course world)
               (map (\<lambda>j. (B ! j, api_keys ! (j mod K), j + 1, Suc lo)) [0 ..< length B])\<rparr>"
    by (simp add: K_def)
  have local: "(B ! j, api_keys ! (j mod K), j + 1, Suc lo) = round_robin_task urls api_keys (s + j)"
    if "j < e - s" for j
  proof -
    from that se have "j < K" by simp
    then have "(s + j) mod K = j" "(s + j) div K = lo" "j mod K = j"
      using K by (simp_all add: s_def K_def)
    with nth [OF that] show ?thesis
      by (simp add: round_robin_task_def K_def [symmetric])
  qed
  have "map (\<lambda>j. (B ! j, api_keys ! (j mod K), j + 1, Suc lo)) [0 ..< length B]
      = map (\<lambda>j. round_robin_task urls api_keys (s + j)) [0 ..< e - s]"
    unfolding len using local by simp
  also have "\<dots> = map (round_robin_task urls api_keys) (map (\<lambda>j. s + j) [0 ..< e - s])"
    by (simp add: o_def)
  also have "map (\<lambda>j. s + j) [0 ..< e - s] = [s ..< e]"
  proof -
    have "map (\<lambda>j. j + s) [0 ..< e - s] = [s ..< e - s + s]" by (rule map_add_upt)
    with se show ?thesis by (simp add: add.commute)
  qed
  finally have ts: "map (\<lambda>j. (B ! j, api_keys ! (j mod K), j + 1, Suc lo)) [0 ..< length B]
      = map (round_robin_task urls api_keys) [s ..< e]" .
  define T where "T = map (round_robin_task urls api_keys) [s ..< e]"
  define run where "run = \<lparr>tasks = T, max_workers = min (length B) K,
      batch_results = map (scrape_single_course world) T\<rparr>"
  have "process_batch world B api_keys (Suc lo) = Inr run"
    using run unfolding ts run_def T_def .
  moreover have "tasks run = T" by (simp add: run_def)
  moreover have "length T = length B" by (simp add: T_def len)
  then have "max_workers run = min (length (tasks run)) K" by (simp add: run_def)
  moreover have "batch_results run = map (scrape_single_course world) (tasks run)"
    by (simp add: run_def)
  moreover have "e = min (Suc lo * K) (length urls)"
    by (simp add: e_def s_def add.commute)
  ultimately show ?thesis
    unfolding B_def T_def e_def s_def K_def by (intro exI [of _ run]) simp
qed

lemma run_batches_eq:
  assumes K: "0 < length api_keys"
  shows "m = 0 \<or> (lo + m - 1) * length api_keys < length urls \<Longrightarrow>
     \<exists>runs. run_batches world urls api_keys (length api_keys) [Suc lo ..< Suc lo + m] = Inr runs \<and>
       length runs = m \<and>
       all_tasks runs = map (round_robin_task urls api_keys)
          [lo * length api_keys ..< min ((lo + m) * length api_keys) (length urls)] \<and>
       (\<forall>b < m. tasks (runs ! b) = map (round_robin_task urls api_keys)
          [(lo + b) * length api_keys ..< min (Suc (lo + b) * length api_keys) (length urls)] \<and>
          max_workers (runs ! b) = min (length (tasks (runs ! b))) (length api_keys) \<and>
          batch_results (runs ! b) = map (scrape_single_course world) (tasks (runs ! b)))"
proof (induction m arbitrary: lo)
  case 0
  then show ?case by (simp add: all_tasks_def)
next
  case (Suc m)
  define K where "K = length api_keys"
  define n where "n = length urls"
  from Suc.prems have last: "(lo + m) * K < n" by (simp add: K_def n_def)
  have "lo * K \<le> (lo + m) * K" by simp
  from this last have start: "lo * K < n" by (rule le_less_trans)
  from one_batch [OF K, of lo urls world] start
  obtain run where run:
    "process_batch world (drop (lo * K) (take (min (lo * K + K) n) urls)) api_keys (Suc lo) = Inr run"
    "tasks run = map (round_robin_task urls api_keys) [lo * K ..< min (Suc lo * K) n]"
    "max_workers run = min (length (tasks run)) K"
    "batch_results run = map (scrape_single_course world) (tasks run)"
    unfolding K_def n_def by blast
  have "m = 0 \<or> (Suc lo + m - 1) * length api_keys < length urls"
    using last by (cases m) (simp_all add: K_def n_def)
  from Suc.IH [OF this]
  obtain runs where runs:
    "run_batches world urls api_keys K [Suc (Suc lo) ..< Suc (Suc lo) + m] = Inr runs"
    "length runs = m"
    "all_tasks runs = map (round_robin_task urls api_keys)
        [Suc lo * K ..< min ((Suc lo + m) * K) n]"
    "\<forall>b < m. tasks (runs ! b) = map (round_robin_task urls api_keys)
          [(Suc lo + b) * K ..< min (Suc (Suc lo + b) * K) n] \<and>
          max_workers (runs ! b) = min (length (tasks (runs ! b))) K \<and>
          batch_results (runs ! b) = map (scrape_single_course world) (tasks (runs ! b))"
    unfolding K_def n_def by blast
  have nums: "[Suc lo ..< Suc lo + Suc m] = Suc lo # [Suc (Suc lo) ..< Suc (Suc lo) + m]"
    by (simp add: upt_conv_Cons del: upt_Suc)
  have step: "run_batches world urls api_keys K (Suc lo # later) = Inr (run # runs)"
    if "run_batches world urls api_keys K later = Inr runs" for later
    using that run(1) by (simp add: Let_def n_def)
  have r: "run_batches world urls api_keys K [Suc lo ..< Suc lo + Suc m] = Inr (run # runs)"
    unfolding nums using runs(1) by (rule step)
  have len: "length (run # runs) = Suc m" using runs(2) by simp
  have join: "[lo * K ..< min (Suc lo * K) n] @ [Suc lo * K ..< min ((Suc lo + m) * K) n]
      = [lo * K ..< min ((lo + Suc m) * K) n]"
  proof (cases m)
    case 0
    then show ?thesis by simp
  next
    case (Suc m')
    have "Suc lo * K \<le> (lo + m) * K" unfolding Suc by simp
    from this last have lt: "Suc lo * K < n" by (rule le_less_trans)
    then have a: "min (Suc lo * K) n = Suc lo * K" by (simp only: min_def) simp
    have b: "lo * K \<le> Suc lo * K" by simp
    have "Suc lo * K \<le> (Suc lo + m) * K" by simp
    moreover from lt have "Suc lo * K \<le> n" by (rule less_imp_le)
    ultimately have c: "Suc lo * K \<le> min ((Suc lo + m) * K) n"
      by (rule min.boundedI)
    have "[lo * K ..< min ((Suc lo + m) * K) n]
        = [lo * K ..< Suc lo * K] @ [Suc lo * K ..< min ((Suc lo + m) * K) n]"
      using b c by (metis le_Suc_ex upt_add_eq_append)
    with a show ?thesis by simp
  qed
  have all: "all_tasks (run # runs) = map (round_robin_task urls api_keys)
      [lo * K ..< min ((lo + Suc m) * K) n]"
    unfolding join [symmetric] using run(2) runs(3) by (simp add: all_tasks_def)
  have each: "tasks ((run # runs) ! b) = map (round_robin_task urls api_keys)
          [(lo + b) * K ..< min (Suc (lo + b) * K) n] \<and>
          max_workers ((run # runs) ! b) = min (length (tasks ((run # runs) ! b))) K \<and>
          batch_results ((run # runs) ! b)
            = map (scrape_single_course world) (tasks ((run # runs) ! b))"
    if "b < Suc m" for b
  proof (cases b)
    case 0
    with run(2-4) show ?thesis by simp
  next
    case (Suc b')
    with that have "b' < m" by simp
    with runs(4) Suc show ?thesis by simp
  qed
  from r len all each show ?case
    unfolding K_def n_def by blast
qed

lemma ceil_div_covers: "0 < K \<Longrightarrow> n \<le> ((n + K - 1) div K) * (K::nat)"
proof -
  assume K: "0 < K"
  have "(n + K - 1) div K * K + (n + K - 1) mod K = n + K - 1" by simp
  moreover from K have "(n + K - 1) mod K < K" by simp
  ultimately show ?thesis by linarith
qed

lemma ceil_div_last:
  "0 < K \<Longrightarrow> 0 < (n + K - 1) div K \<Longrightarrow> ((n + K - 1) div K - 1) * K < (n::nat)"
proof -
  assume K: "0 < K" and q: "0 < (n + K - 1) div K"
  define q where "q = (n + K - 1) div K"
  have "q * K + (n + K - 1) mod K = n + K - 1" by (simp add: q_def)
  then have le: "q * K \<le> n + K - 1" by linarith
  from q have "1 \<le> q" by (simp add: q_def)
  then have "1 * K \<le> q * K" by (rule mult_le_mono1)
  then have ge: "K \<le> q * K" by simp
  have "(q - 1) * K = q * K - K" by (simp add: diff_mult_distrib)
  with le ge K show ?thesis unfolding q_def [symmetric] by linarith
qed

lemma main_batches_eq:
  assumes K: "0 < length api_keys"
  shows "\<exists>runs. main_batches world urls api_keys = Inr runs \<and>
       length runs = (length urls + length api_keys - 1) div length api_keys \<and>
       all_tasks runs = map (round_robin_task urls api_keys) [0 ..< length urls] \<and>
       (\<forall>b < length runs. tasks (runs ! b) = map (round_robin_task urls api_keys)
          [b * length api_keys ..< min (Suc b * length api_keys) (length urls)] \<and>
          max_workers (runs ! b) = min (length (tasks (runs ! b))) (length api_keys) \<and>
          batch_results (runs ! b) = map (scrape_single_course world) (tasks (runs ! b)))"
proof -
  define K where "K = length api_keys"
  define n where "n = length urls"
  define total where "total = (n + K - 1) div K"
  have "total = 0 \<or> (0 + total - 1) * K < n"
    using ceil_div_last [of K n] K by (auto simp: total_def K_def)
  from run_batches_eq [OF K, of total 0 urls world] this
  obtain runs where runs:
    "run_batches world urls api_keys K [Suc 0 ..< Suc 0 + total] = Inr runs"
    "length runs = total"
    "all_tasks runs = map (round_robin_task urls api_keys) [0 * K ..< min ((0 + total) * K) n]"
    "\<forall>b < total. tasks (runs ! b) = map (round_robin_task urls api_keys)
          [(0 + b) * K ..< min (Suc (0 + b) * K) n] \<and>
          max_workers (runs ! b) = min (length (tasks (runs ! b))) K \<and>
          batch_results (runs ! b) = map (scrape_single_course world) (tasks (runs ! b))"
    unfolding K_def n_def by blast
  have "n \<le> total * K" using ceil_div_covers [of K n] K by (simp add: total_def K_def)
  then have "min ((0 + total) * K) n = n" by simp
  with runs(3) have all: "all_tasks runs = map (round_robin_task urls api_keys) [0 ..< n]"
    by simp
  have "main_batches world urls api_keys = run_batches world urls api_keys K [1 ..< total + 1]"
    using K by (simp add: main_batches_def Let_def K_def n_def total_def del: upt_Suc)
  with runs(1) have "main_batches world urls api_keys = Inr runs" by simp
  with runs(2,4) all show ?thesis
    unfolding K_def n_def total_def by auto
qed

text \<open>
  Claim C3. With at least one key, the batch loop runs to its end; the tasks of all
  batches, in order, are the round-robin tasks of the URL list, so the task with
  overall index \<open>t\<close> holds the key \<open>t mod K\<close>. Inside batch \<open>b\<close> (counted from 0) the
  task with local index \<open>i\<close> is the task with overall index \<open>b * K + i\<close>, its key is
  \<open>i mod K\<close>, and the two indices agree modulo \<open>K\<close>.
\<close>

theorem round_robin_key_assignment:
  assumes "0 < length api_keys"
  shows "\<exists>runs. main_batches world urls api_keys = Inr runs \<and>
     all_tasks runs = map (round_robin_task urls api_keys) [0 ..< length urls] \<and>
     (\<forall>t < length urls. fst (snd (all_tasks runs ! t)) = api_keys ! (t mod length api_keys)) \<and>
     (\<forall>b < length runs. \<forall>i < length (tasks (runs ! b)).
        tasks (runs ! b) ! i = all_tasks runs ! (b * length api_keys + i) \<and>
        fst (snd (tasks (runs ! b) ! i)) = api_keys ! (i mod length api_keys) \<and>
        i mod length api_keys = (b * length api_keys + i) mod length api_keys)"
proof -
  define K where "K = length api_keys"
  define n where "n = length urls"
  from main_batches_eq [OF assms, of world urls]
  obtain runs where runs:
    "main_batches world urls api_keys = Inr runs"
    "all_tasks runs = map (round_robin_task urls api_keys) [0 ..< n]"
    "\<forall>b < length runs. tasks (runs ! b) = map (round_robin_task urls api_keys)
          [b * K ..< min (Suc b * K) n]"
    unfolding K_def n_def by blast
  have global: "fst (snd (all_tasks runs ! t)) = api_keys ! (t mod K)" if "t < n" for t
    using that by (simp add: runs(2) round_robin_task_def K_def)
  have local: "tasks (runs ! b) ! i = all_tasks runs ! (b * K + i) \<and>
        fst (snd (tasks (runs ! b) ! i)) = api_keys ! (i mod K) \<and>
        i mod K = (b * K + i) mod K"
    if b: "b < length runs" and i: "i < length (tasks (runs ! b))" for b i
  proof -
    from runs(3) b have ts: "tasks (runs ! b) = map (round_robin_task urls api_keys)
          [b * K ..< min (Suc b * K) n]" by blast
    with i have i': "i < min (Suc b * K) n - b * K" by simp
    then have lt: "b * K + i < n" by simp
    from i' have "i + b * K < min (Suc b * K) n" by (simp only: less_diff_conv)
    then have "b * K + i < min (Suc b * K) n" by (simp only: add.commute)
    then have "[b * K ..< min (Suc b * K) n] ! i = b * K + i" by (rule nth_upt)
    with ts i' have "tasks (runs ! b) ! i = round_robin_task urls api_keys (b * K + i)"
      by simp
    moreover from lt have "all_tasks runs ! (b * K + i) = round_robin_task urls api_keys (b * K + i)"
      by (simp add: runs(2))
    moreover have "(b * K + i) mod K = i mod K" by simp
    ultimately show ?thesis
      by (simp add: round_robin_task_def K_def)
  qed
  from runs(1,2) global local show ?thesis
    unfolding K_def n_def by blast
qed

text \<open>
  C3 with five courses and two keys: three batches, keys A, B, A, B, A.
\<close>

theorem round_robin_key_assignment_witness:
  "\<exists>runs. main_batches world_stub urls_example api_keys_example = Inr runs \<and>
     map (\<lambda>(u, k, w, b). (lesson_id u, k, w, b)) (all_tasks runs)
       = [(''L1'', ''fc-key-A'', 1, 1), (''L2'', ''fc-key-B'', 2, 1),
          (''L3'', ''fc-key-A'', 1, 2), (''L4'', ''fc-key-B'', 2, 2),
          (''L5'', ''fc-key-A'', 1, 3)]"
proof -
  have keys: "0 < length api_keys_example" by (simp add: api_keys_example_def)
  from round_robin_key_assignment [OF keys, of world_stub urls_example]
  obtain runs where runs:
    "main_batches world_stub urls_example api_keys_example = Inr runs"
    "all_tasks runs = map (round_robin_task urls_example api_keys_example)
        [0 ..< length urls_example]"
    by blast
  have len: "length api_keys_example = 2" by (simp add: api_keys_example_def)
  have rr: "round_robin_task urls_example api_keys_example t
      = (urls_example ! t, api_keys_example ! (t mod 2), t mod 2 + 1, t div 2 + 1)" for t
    by (simp add: round_robin_task_def len)
  have idx: "[0 ..< length urls_example] = [0, 1, 2, 3, 4]"
    by (simp add: urls_example_def upt_rec)
  have "map (\<lambda>(u, k, w, b). (lesson_id u, k, w, b))
          (map (round_robin_task urls_example api_keys_example) [0 ..< length urls_example])
       = [(''L1'', ''fc-key-A'', 1, 1), (''L2'', ''fc-key-B'', 2, 1),
          (''L3'', ''fc-key-A'', 1, 2), (''L4'', ''fc-key-B'', 2, 2),
          (''L5'', ''fc-key-A'', 1, 3)]"
    unfolding idx list.map rr
    by (simp add: urls_example_def api_keys_example_def course_example_def)
  then have "map (\<lambda>(u, k, w, b). (lesson_id u, k, w, b)) (all_tasks runs)
       = [(''L1'', ''fc-key-A'', 1, 1), (''L2'', ''fc-key-B'', 2, 1),
          (''L3'', ''fc-key-A'', 1, 2), (''L4'', ''fc-key-B'', 2, 2),
          (''L5'', ''fc-key-A'', 1, 3)]"
    unfolding runs(2) .
  with runs(1) show ?thesis by (intro exI [of _ runs] conjI)
qed

text \<open>
  Claim C8. With at least one key, every batch of the batch loop starts a pool of
  \<open>min (tasks in the batch) K\<close> workers: at least one, never more than \<open>K\<close>, and exactly
  \<open>K\<close> when the batch holds at least \<open>K\<close> tasks, which every batch but the last does. The
  demo scraper starts \<open>min 10 K\<close> workers for its single batch of at most ten courses:
  never more than \<open>K\<close>, and exactly \<open>K\<close> when the batch holds at least \<open>K\<close> tasks.
\<close>

theorem pool_size_bounded_by_keys:
  assumes "0 < length api_keys"
  shows "\<exists>runs. main_batches world urls api_keys = Inr runs \<and>
     (\<forall>b < length runs.
        max_workers (runs ! b) = min (length (tasks (runs ! b))) (length api_keys) \<and>
        0 < max_workers (runs ! b) \<and>
        max_workers (runs ! b) \<le> length api_keys \<and>
        (length api_keys \<le> length (tasks (runs ! b))
           \<longrightarrow> max_workers (runs ! b) = length api_keys) \<and>
        (Suc b < length runs \<longrightarrow> max_workers (runs ! b) = length api_keys)) \<and>
     demo_max_workers api_keys = min 10 (length api_keys) \<and>
     demo_max_workers api_keys \<le> length api_keys \<and>
     (length api_keys \<le> length (load_first_10_urls rows)
        \<longrightarrow> demo_max_workers api_keys = length api_keys)"
proof -
  define K where "K = length api_keys"
  define n where "n = length urls"
  from main_batches_eq [OF assms, of world urls]
  obtain runs where runs:
    "main_batches world urls api_keys = Inr runs"
    "length runs = (n + K - 1) div K"
    "\<forall>b < length runs. tasks (runs ! b) = map (round_robin_task urls api_keys)
          [b * K ..< min (Suc b * K) n] \<and>
          max_workers (runs ! b) = min (length (tasks (runs ! b))) K"
    unfolding K_def n_def by blast
  have K: "0 < K" using assms by (simp add: K_def)
  have batch: "max_workers (runs ! b) = min (length (tasks (runs ! b))) K \<and>
        0 < max_workers (runs ! b) \<and>
        max_workers (runs ! b) \<le> K \<and>
        (K \<le> length (tasks (runs ! b)) \<longrightarrow> max_workers (runs ! b) = K) \<and>
        (Suc b < length runs \<longrightarrow> max_workers (runs ! b) = K)"
    if b: "b < length runs" for b
  proof -
    from runs(3) b have
      len: "length (tasks (runs ! b)) = min (Suc b * K) n - b * K" and
      w: "max_workers (runs ! b) = min (length (tasks (runs ! b))) K"
      by simp_all
    from b have total: "0 < (n + K - 1) div K" using runs(2) by simp
    from b have "b \<le> (n + K - 1) div K - 1" using runs(2) by simp
    then have "b * K \<le> ((n + K - 1) div K - 1) * K" by (rule mult_le_mono1)
    also have "\<dots> < n" using K total by (rule ceil_div_last)
    finally have start: "b * K < n" .
    have "b * K < Suc b * K" using K by simp
    with start have "b * K < min (Suc b * K) n" by simp
    with len have pos: "0 < length (tasks (runs ! b))" by simp
    have full: "length (tasks (runs ! b)) = K" if "Suc b < length runs"
    proof -
      from that have "Suc b \<le> (n + K - 1) div K - 1" using runs(2) by simp
      then have "Suc b * K \<le> ((n + K - 1) div K - 1) * K" by (rule mult_le_mono1)
      also have "\<dots> < n" using K total by (rule ceil_div_last)
      finally have "min (Suc b * K) n = Suc b * K" by simp
      with len show ?thesis by simp
    qed
    from w pos K full show ?thesis by auto
  qed
  have demo: "demo_max_workers api_keys = min 10 K \<and> demo_max_workers api_keys \<le> K \<and>
     (K \<le> length (load_first_10_urls rows) \<longrightarrow> demo_max_workers api_keys = K)"
    by (auto simp: demo_max_workers_def load_first_10_urls_def K_def)
  from runs(1) batch demo show ?thesis
    unfolding K_def by blast
qed

text \<open>
  C8 with five courses and two keys: pools of 2, 2 and 1 workers.
\<close>

theorem pool_size_bounded_by_keys_witness:
  "\<exists>runs. main_batches world_stub urls_example api_keys_example = Inr runs \<and>
     length runs = 3 \<and> map max_workers runs = [2, 2, 1] \<and>
     demo_max_workers api_keys_example = 2"
proof -
  have keys: "0 < length api_keys_example" by (simp add: api_keys_example_def)
  have len: "length api_keys_example = 2" by (simp add: api_keys_example_def)
  have n: "length urls_example = 5" by (simp add: urls_example_def)
  from main_batches_eq [OF keys, of world_stub urls_example]
  obtain runs where runs:
    "main_batches world_stub urls_example api_keys_example = Inr runs"
    "length runs = (5 + 2 - 1) div 2"
    "\<forall>b < length runs. length (tasks (runs ! b)) = min (Suc b * 2) 5 - b * 2"
    unfolding len n by fastforce
  from runs(2) have three: "length runs = 3" by simp
  from pool_size_bounded_by_keys [OF keys, of world_stub urls_example urls_example]
  obtain runs' where runs':
    "main_batches world_stub urls_example api_keys_example = Inr runs'"
    "\<forall>b < length runs'. max_workers (runs' ! b) = min (length (tasks (runs' ! b))) 2"
    "demo_max_workers api_keys_example = min 10 2"
    unfolding len by blast
  from runs(1) runs'(1) have same: "runs' = runs" by simp
  have w: "max_workers (runs ! b) = min (min (Suc b * 2) 5 - b * 2) 2" if "b < 3" for b
    using that runs'(2) runs(3) three unfolding same by simp
  have "map max_workers runs = map (\<lambda>b. max_workers (runs ! b)) [0 ..< length runs]"
    by (rule nth_equalityI) simp_all
  also have "[0 ..< length runs] = [0, 1, 2]"
    unfolding three by (simp add: upt_rec numeral_eq_Suc)
  also have "map (\<lambda>b. max_workers (runs ! b)) [0, 1, 2] = [2, 2, 1]"
    using w [of 0] w [of 1] w [of 2] by simp
  finally have "map max_workers runs = [2, 2, 1]" .
  with runs(1) three runs'(3) show ?thesis by (intro exI [of _ runs] conjI) simp_all
qed



end
